theory Spec2Isabelle
  imports Complex_Main "HOL-Library.Multiset"
begin

section \<open>Python strings\<close>

text \<open>
  A Python \<open>str\<close> is a sequence of code points. It is modelled as a \<open>string\<close> in which
  every \<open>char\<close> stands for one code point below 256, so \<open>length\<close> counts code points as
  Python's \<open>len\<close> does. A table cell read by pandas with \<open>dtype=str\<close> is a string or the
  missing marker NaN: \<open>Some s\<close> or \<open>None\<close>.
\<close>

type_synonym cell = "string option"

text \<open>The code points below 256 for which \<open>str.isspace\<close> holds: these are the characters
  \<open>str.strip()\<close> removes and \<open>str.split()\<close> splits on.\<close>

definition isspace :: "char \<Rightarrow> bool" where
  "isspace c \<longleftrightarrow>
     (of_char c :: nat) \<in> {9, 10, 11, 12, 13, 28, 29, 30, 31, 32, 133, 160}"

text \<open>\<open>s.strip()\<close>\<close>

definition strip :: "string \<Rightarrow> string" where
  "strip s = rev (dropWhile isspace (rev (dropWhile isspace s)))"

text \<open>\<open>s.lower()\<close> on code points below 256: A-Z and the capital letters of Latin-1
  (0xC0-0xDE without the multiplication sign 0xD7) move up by 32.\<close>

definition lower_char :: "char \<Rightarrow> char" where
  "lower_char c =
     (let n = (of_char c :: nat) in
      if (65 \<le> n \<and> n \<le> 90) \<or> (192 \<le> n \<and> n \<le> 222 \<and> n \<noteq> 215)
      then char_of (n + 32) else c)"

definition lower :: "string \<Rightarrow> string" where
  "lower s = map lower_char s"

text \<open>\<open>s.split(sep)\<close> for a one-character separator: one more part than there are
  separators, empty parts kept.\<close>

fun split_on :: "char \<Rightarrow> string \<Rightarrow> string list" where
  "split_on sep [] = [[]]"
| "split_on sep (c # cs) =
     (if c = sep then [] # split_on sep cs
      else (case split_on sep cs of
              [] \<Rightarrow> [[c]]
            | w # ws \<Rightarrow> (c # w) # ws))"

text \<open>\<open>s.split()\<close>: skip whitespace, take the run of non-whitespace characters as a
  word, go on with what follows it. Empty words never arise.\<close>

function split_ws :: "string \<Rightarrow> string list" where
  "split_ws s =
     (case dropWhile isspace s of
        [] \<Rightarrow> []
      | c # cs \<Rightarrow>
          takeWhile (\<lambda>x. \<not> isspace x) (c # cs)
            # split_ws (dropWhile (\<lambda>x. \<not> isspace x) cs))"
  by pat_completeness auto
termination
proof (relation "measure length")
  show "wf (measure length)" by simp
next
  fix s :: string and c cs
  assume "dropWhile isspace s = c # cs"
  then have "length (c # cs) \<le> length s"
    by (metis length_dropWhile_le)
  moreover have "length (dropWhile (\<lambda>x. \<not> isspace x) cs) \<le> length cs"
    by (rule length_dropWhile_le)
  ultimately show "(dropWhile (\<lambda>x. \<not> isspace x) cs, s) \<in> measure length"
    by simp
qed

declare split_ws.simps [simp del]

text \<open>\<open>sep.join(parts)\<close>\<close>

fun join :: "string \<Rightarrow> string list \<Rightarrow> string" where
  "join sep [] = []"
| "join sep [w] = w"
| "join sep (w # v # ws) = w @ sep @ join sep (v # ws)"

text \<open>\<open>s.endswith(suf)\<close>\<close>

definition endswith :: "string \<Rightarrow> string \<Rightarrow> bool" where
  "endswith s suf \<longleftrightarrow> length suf \<le> length s \<and> drop (length s - length suf) s = suf"

section \<open>Errors\<close>

text \<open>One constructor for each place where the two scripts raise (or where a library call
  made by them raises).
  \<^item> \<open>Invalid_name_value\<close>: \<open>ValueError("Invalid name value: ...")\<close>, parse_fullnames;
  \<^item> \<open>Not_one_comma\<close>: \<open>ValueError("Name must contain exactly one comma: ...")\<close>,
    parse_fullnames;
  \<^item> \<open>IndexError\<close>: \<open>parts[-1]\<close> on an empty list, parse_fullnames;
  \<^item> \<open>Unexpected_format\<close>: \<open>ValueError("Full name data in unexpected format")\<close>, with the
    rows that were printed, parse_fullnames;
  \<^item> \<open>Invalid_name\<close>: \<open>ValueError("Invalid name: {parts}")\<close>, combine_name_parts;
  \<^item> \<open>KeyError\<close>: raised by \<open>DataFrame.sort_values\<close> for a column the frame does not have;
  \<^item> \<open>Threshold_out_of_range\<close>:
    \<open>ValueError("Similarity threshold must be between 0 and 1")\<close>, the script's entry.\<close>

datatype error =
    Invalid_name_value cell
  | Not_one_comma string
  | IndexError
  | Unexpected_format "cell list"
  | Invalid_name
  | KeyError string
  | Threshold_out_of_range

text \<open>The specification's \<open>InvalidName\<close> for the reverse operation covers the two
  \<open>ValueError\<close>s raised on the shape of one value.\<close>

fun InvalidName :: "error \<Rightarrow> bool" where
  "InvalidName (Invalid_name_value v) = True"
| "InvalidName (Not_one_comma s) = True"
| "InvalidName e = False"

section \<open>Name canonicalizer\<close>

subsection \<open>parse_fullnames (parse_employer_bu.py)\<close>

text \<open>The body of the loop \<open>for fullname in df[fullname_col]\<close>: one value of the column
  to its (last, first, middle), or the exception it raises.\<close>

definition parse_fullname :: "cell \<Rightarrow> error + (string \<times> string \<times> string)" where
  "parse_fullname fullname =
     (case fullname of
        None \<Rightarrow> Inl (Invalid_name_value fullname)
      | Some s \<Rightarrow>
          if strip s = [] then Inl (Invalid_name_value fullname)
          else
            (let parts = split_on CHR '','' s in
             if length parts \<noteq> 2 then Inl (Not_one_comma s)
             else
               (let lastn = strip (parts ! 0);
                    rest = strip (parts ! 1);
                    parts = split_ws rest
                in if parts = [] then Inl IndexError
                   else if endswith (last parts) ''.''
                   then Inr (lastn, join '' '' (butlast parts), last parts)
                   else Inr (lastn, join '' '' parts, ''''))))"

text \<open>The loop itself: the first value that raises ends it.\<close>

fun parse_rows :: "cell list \<Rightarrow> error + (string \<times> string \<times> string) list" where
  "parse_rows [] = Inr []"
| "parse_rows (fullname # col) =
     (case parse_fullname fullname of
        Inl e \<Rightarrow> Inl e
      | Inr person \<Rightarrow>
          (case parse_rows col of
             Inl e \<Rightarrow> Inl e
           | Inr persons \<Rightarrow> Inr (person # persons)))"

text \<open>The reconstruction \<open>(df["Last"] + ", " + df["First"] + " " + df["Middle"]).str.strip()\<close>
  of one row.\<close>

definition reconstruct :: "string \<times> string \<times> string \<Rightarrow> string" where
  "reconstruct person =
     (case person of (lastn, first, middle) \<Rightarrow> strip (lastn @ '', '' @ first @ '' '' @ middle))"

text \<open>The whole function on the column \<open>df[fullname_col]\<close>: the loop, then the check that
  every reconstructed name equals the original value. The result stands for the three new
  columns Last, First, Middle.\<close>

definition parse_fullnames :: "cell list \<Rightarrow> error + (string \<times> string \<times> string) list" where
  "parse_fullnames col =
     (case parse_rows col of
        Inl e \<Rightarrow> Inl e
      | Inr persons \<Rightarrow>
          (let nonmatches =
                 map fst (filter (\<lambda>(orig, person). Some (reconstruct person) \<noteq> orig)
                            (zip col persons))
           in if nonmatches \<noteq> [] then Inl (Unexpected_format nonmatches)
              else Inr persons))"

subsection \<open>combine_name_parts (check_skipped_imports.py)\<close>

definition clean_name_part :: "cell \<Rightarrow> string" where
  "clean_name_part x = (case x of Some s \<Rightarrow> s | None \<Rightarrow> '''')"

text \<open>The body of the loop over the rows: the three cells of one row to the combined
  name.\<close>

definition combine_name :: "cell \<times> cell \<times> cell \<Rightarrow> error + string" where
  "combine_name parts =
     (case parts of (p1, p2, p3) \<Rightarrow>
        (let lastn = clean_name_part p1;
             first = clean_name_part p2;
             middle = clean_name_part p3;
             full_name = strip (lastn @ '', '' @ first @ '' '' @ middle)
         in if full_name = [] then Inl Invalid_name else Inr full_name))"

fun combine_name_parts :: "(cell \<times> cell \<times> cell) list \<Rightarrow> error + string list" where
  "combine_name_parts [] = Inr []"
| "combine_name_parts (parts # rows) =
     (case combine_name parts of
        Inl e \<Rightarrow> Inl e
      | Inr full_name \<Rightarrow>
          (case combine_name_parts rows of
             Inl e \<Rightarrow> Inl e
           | Inr combined_names \<Rightarrow> Inr (full_name # combined_names)))"

subsection \<open>Name parts that survive the round trip\<close>

text \<open>A word is what \<open>str.split()\<close> produces: a non-empty run of characters none of
  which is whitespace.\<close>

definition word :: "string \<Rightarrow> bool" where
  "word w \<longleftrightarrow> w \<noteq> [] \<and> (\<forall>c\<in>set w. \<not> isspace c)"

text \<open>The shape of (last, first, middle) that parse_fullname can produce with a non-empty
  first name: no part holds a comma; the last name is non-empty and neither starts nor ends
  with whitespace; the first name is one or more words separated by single spaces; the
  middle name is empty, and then the first name does not end with a period, or it is a
  single word that ends with a period.\<close>

definition canonical_parts :: "string \<Rightarrow> string \<Rightarrow> string \<Rightarrow> bool" where
  "canonical_parts lastn first middle \<longleftrightarrow>
     lastn \<noteq> [] \<and> \<not> isspace (hd lastn) \<and> \<not> isspace (last lastn) \<and>
     CHR '','' \<notin> set lastn \<and>
     first \<noteq> [] \<and> join '' '' (split_ws first) = first \<and> CHR '','' \<notin> set first \<and>
     (if middle = [] then \<not> endswith first ''.''
      else split_ws middle = [middle] \<and> CHR '','' \<notin> set middle \<and> endswith middle ''.'')"

section \<open>The similarity ratio of difflib\<close>

text \<open>
  The matcher calls \<open>SequenceMatcher(None, name, existing).ratio()\<close> of Python's standard
  library. What follows is that computation for \<open>isjunk = None\<close> and the default
  \<open>autojunk = True\<close>, written after \<open>Lib/difflib.py\<close>: \<open>__chain_b\<close>, \<open>find_longest_match\<close>,
  \<open>get_matching_blocks\<close> and \<open>ratio\<close>. With no junk predicate the set \<open>bjunk\<close> is empty, so
  the tests \<open>not isbjunk(...)\<close> are true and the two loops of \<open>find_longest_match\<close> that
  extend a match over junk never run.
\<close>

text \<open>\<open>__chain_b\<close>: in a \<open>b\<close> of 200 or more characters, a character that occurs more than
  \<open>len(b) // 100 + 1\<close> times is popular and loses its entry in \<open>b2j\<close>.\<close>

definition popular :: "string \<Rightarrow> char \<Rightarrow> bool" where
  "popular b elt \<longleftrightarrow> length b \<ge> 200 \<and> count_list b elt > length b div 100 + 1"

text \<open>\<open>b2j.get(elt, [])\<close>: the indices at which \<open>elt\<close> stands in \<open>b\<close>, ascending.\<close>

definition b2j :: "string \<Rightarrow> char \<Rightarrow> nat list" where
  "b2j b elt = (if popular b elt then [] else filter (\<lambda>j. b ! j = elt) [0..<length b])"

text \<open>A match is \<open>(besti, bestj, bestsize)\<close>. The inner loop of \<open>find_longest_match\<close>,
  \<open>for j in b2j.get(a[i], nothing)\<close>, with the dictionary \<open>newj2len\<close> it fills. The key
  \<open>j - 1\<close> of \<open>j2len.get(j-1, 0)\<close> is \<open>-1\<close> for \<open>j = 0\<close>, which no dictionary holds.\<close>

type_synonym match = "nat \<times> nat \<times> nat"

fun scan_js ::
  "(nat \<rightharpoonup> nat) \<Rightarrow> nat \<Rightarrow> nat \<Rightarrow> nat \<Rightarrow> nat list \<Rightarrow> (nat \<rightharpoonup> nat) \<times> match
     \<Rightarrow> (nat \<rightharpoonup> nat) \<times> match" where
  "scan_js j2len i blo bhi [] st = st"
| "scan_js j2len i blo bhi (j # js) (newj2len, besti, bestj, bestsize) =
     (if j < blo then scan_js j2len i blo bhi js (newj2len, besti, bestj, bestsize)
      else if j \<ge> bhi then (newj2len, besti, bestj, bestsize)
      else
        (let k = (case j of 0 \<Rightarrow> 0
                  | Suc j' \<Rightarrow> (case j2len j' of None \<Rightarrow> 0 | Some l \<Rightarrow> l)) + 1;
             newj2len = newj2len(j \<mapsto> k)
         in if k > bestsize
            then scan_js j2len i blo bhi js (newj2len, i + 1 - k, j + 1 - k, k)
            else scan_js j2len i blo bhi js (newj2len, besti, bestj, bestsize)))"

text \<open>The outer loop, \<open>for i in range(alo, ahi)\<close>.\<close>

fun scan_is ::
  "string \<Rightarrow> string \<Rightarrow> nat \<Rightarrow> nat \<Rightarrow> nat list \<Rightarrow> (nat \<rightharpoonup> nat) \<times> match \<Rightarrow> match" where
  "scan_is a b blo bhi [] (j2len, best) = best"
| "scan_is a b blo bhi (i # rng) (j2len, best) =
     scan_is a b blo bhi rng (scan_js j2len i blo bhi (b2j b (a ! i)) (Map.empty, best))"

text \<open>The two loops that extend the best match by (popular) characters on each end.\<close>

function extend_left :: "string \<Rightarrow> string \<Rightarrow> nat \<Rightarrow> nat \<Rightarrow> match \<Rightarrow> match" where
  "extend_left a b alo blo (besti, bestj, bestsize) =
     (if besti > alo \<and> bestj > blo \<and> a ! (besti - 1) = b ! (bestj - 1)
      then extend_left a b alo blo (besti - 1, bestj - 1, bestsize + 1)
      else (besti, bestj, bestsize))"
  by pat_completeness auto
termination
  by (relation "measure (\<lambda>(a, b, alo, blo, besti, bestj, bestsize). besti)") auto

function extend_right :: "string \<Rightarrow> string \<Rightarrow> nat \<Rightarrow> nat \<Rightarrow> match \<Rightarrow> match" where
  "extend_right a b ahi bhi (besti, bestj, bestsize) =
     (if besti + bestsize < ahi \<and> bestj + bestsize < bhi
         \<and> a ! (besti + bestsize) = b ! (bestj + bestsize)
      then extend_right a b ahi bhi (besti, bestj, bestsize + 1)
      else (besti, bestj, bestsize))"
  by pat_completeness auto
termination
  by (relation "measure (\<lambda>(a, b, ahi, bhi, besti, bestj, bestsize). ahi - (besti + bestsize))")
    auto

declare extend_left.simps [simp del] extend_right.simps [simp del]

definition find_longest_match :: "string \<Rightarrow> string \<Rightarrow> nat \<Rightarrow> nat \<Rightarrow> nat \<Rightarrow> nat \<Rightarrow> match" where
  "find_longest_match a b alo ahi blo bhi =
     extend_right a b ahi bhi
       (extend_left a b alo blo
          (scan_is a b blo bhi [alo..<ahi] (Map.empty, (alo, blo, 0))))"

text \<open>A match found between \<open>alo\<close> and \<open>ahi\<close> lies there: it starts at \<open>alo\<close> or later and,
  unless it is the empty match at \<open>alo\<close>, ends at \<open>ahi\<close> or earlier. This is what makes the
  loop of \<open>get_matching_blocks\<close> end.\<close>

definition lies_in :: "nat \<Rightarrow> nat \<Rightarrow> match \<Rightarrow> bool" where
  "lies_in alo ahi m \<longleftrightarrow>
     (case m of (besti, bestj, bestsize) \<Rightarrow>
        alo \<le> besti \<and> (bestsize = 0 \<and> besti = alo \<or> besti + bestsize \<le> ahi))"

lemma scan_js_lies_in:
  assumes "\<forall>j' l. j2len j' = Some l \<longrightarrow> l \<le> i - alo" and "alo \<le> i" and "i < ahi"
    and "lies_in alo ahi best" and "\<forall>j' l. new j' = Some l \<longrightarrow> l \<le> Suc i - alo"
  shows "(\<forall>j' l. fst (scan_js j2len i blo bhi js (new, best)) j' = Some l \<longrightarrow> l \<le> Suc i - alo)
         \<and> lies_in alo ahi (snd (scan_js j2len i blo bhi js (new, best)))"
  using assms(4,5)
proof (induction js arbitrary: new best)
  case Nil
  then show ?case by simp
next
  case (Cons j js)
  obtain besti bestj bestsize where best: "best = (besti, bestj, bestsize)"
    by (cases best) auto
  define k where
    "k = (case j of 0 \<Rightarrow> 0 | Suc j' \<Rightarrow> (case j2len j' of None \<Rightarrow> 0 | Some l \<Rightarrow> l)) + 1"
  have k: "k \<le> Suc i - alo" "0 < k"
    using assms(1,2) by (auto simp: k_def split: nat.splits option.splits) (metis Suc_diff_le not_less_eq_eq)
  have new: "\<forall>j' l. (new(j \<mapsto> k)) j' = Some l \<longrightarrow> l \<le> Suc i - alo"
    using Cons.prems(2) k by auto
  have w: "lies_in alo ahi (i + 1 - k, j + 1 - k, k)"
    using k assms(2,3) by (auto simp: lies_in_def)
  have step: "scan_js j2len i blo bhi (j # js) (new, besti, bestj, bestsize) =
      (if j < blo then scan_js j2len i blo bhi js (new, besti, bestj, bestsize)
       else if j \<ge> bhi then (new, besti, bestj, bestsize)
       else if k > bestsize
         then scan_js j2len i blo bhi js (new(j \<mapsto> k), i + 1 - k, j + 1 - k, k)
         else scan_js j2len i blo bhi js (new(j \<mapsto> k), besti, bestj, bestsize))"
    by (simp add: k_def Let_def)
  consider "j < blo" | "\<not> j < blo" "bhi \<le> j"
    | "\<not> j < blo" "\<not> bhi \<le> j" "bestsize < k"
    | "\<not> j < blo" "\<not> bhi \<le> j" "\<not> bestsize < k"
    by blast
  then show ?case
  proof cases
    case 1
    then have eq: "scan_js j2len i blo bhi (j # js) (new, best)
                 = scan_js j2len i blo bhi js (new, best)"
      unfolding best step by (simp only: if_True)
    show ?thesis
      unfolding eq by (rule Cons.IH [OF Cons.prems])
  next
    case 2
    then have eq: "scan_js j2len i blo bhi (j # js) (new, best) = (new, best)"
      unfolding best step by (simp only: if_True if_False)
    show ?thesis
      unfolding eq using Cons.prems by simp
  next
    case 3
    then have eq: "scan_js j2len i blo bhi (j # js) (new, best)
                 = scan_js j2len i blo bhi js (new(j \<mapsto> k), i + 1 - k, j + 1 - k, k)"
      unfolding best step by (simp only: if_True if_False)
    show ?thesis
      unfolding eq by (rule Cons.IH [OF w new])
  next
    case 4
    then have eq: "scan_js j2len i blo bhi (j # js) (new, best)
                 = scan_js j2len i blo bhi js (new(j \<mapsto> k), best)"
      unfolding best step by (simp only: if_True if_False)
    show ?thesis
      unfolding eq by (rule Cons.IH [OF Cons.prems(1) new])
  qed
qed

lemma scan_is_lies_in:
  assumes "rng = [i0..<ahi]" and "alo \<le> i0"
    and "\<forall>j' l. j2len j' = Some l \<longrightarrow> l \<le> i0 - alo" and "lies_in alo ahi best"
  shows "lies_in alo ahi (scan_is a b blo bhi rng (j2len, best))"
  using assms
proof (induction rng arbitrary: i0 j2len best)
  case Nil
  then show ?case by simp
next
  case (Cons i rng)
  from Cons.prems(1) [symmetric] have i: "i = i0" "i0 < ahi" "rng = [Suc i0..<ahi]"
    by (auto simp: upt_eq_Cons_conv)
  let ?st = "scan_js j2len i blo bhi (b2j b (a ! i)) (Map.empty, best)"
  have st: "(\<forall>j' l. fst ?st j' = Some l \<longrightarrow> l \<le> Suc i0 - alo) \<and> lies_in alo ahi (snd ?st)"
    using scan_js_lies_in [of j2len i0 alo ahi best Map.empty blo bhi] Cons.prems i
    by simp
  have "lies_in alo ahi (scan_is a b blo bhi rng (fst ?st, snd ?st))"
    using st Cons.prems(2) i by (intro Cons.IH [of "Suc i0"]) auto
  then show ?case by simp
qed

lemma extend_left_lies_in:
  "lies_in alo ahi best \<Longrightarrow> lies_in alo ahi (extend_left a b alo blo best)"
proof (induction a b alo blo best rule: extend_left.induct)
  case (1 a b alo blo besti bestj bestsize)
  show ?case
  proof (cases "besti > alo \<and> bestj > blo \<and> a ! (besti - 1) = b ! (bestj - 1)")
    case True
    then have "lies_in alo ahi (besti - 1, bestj - 1, bestsize + 1)"
      using "1.prems" by (auto simp: lies_in_def)
    then show ?thesis
      using True "1.IH" by (subst extend_left.simps) simp
  next
    case False
    then show ?thesis
      using "1.prems" by (subst extend_left.simps) auto
  qed
qed

lemma extend_right_lies_in:
  "lies_in alo ahi best \<Longrightarrow> lies_in alo ahi (extend_right a b ahi bhi best)"
proof (induction a b ahi bhi best rule: extend_right.induct)
  case (1 a b ahi bhi besti bestj bestsize)
  show ?case
  proof (cases "besti + bestsize < ahi \<and> bestj + bestsize < bhi
                 \<and> a ! (besti + bestsize) = b ! (bestj + bestsize)")
    case True
    then have "lies_in alo ahi (besti, bestj, bestsize + 1)"
      using "1.prems" by (auto simp: lies_in_def)
    then show ?thesis
      using True "1.IH" by (subst extend_right.simps) simp
  next
    case False
    then show ?thesis
      using "1.prems" by (subst extend_right.simps) auto
  qed
qed

lemma find_longest_match_lies_in: "lies_in alo ahi (find_longest_match a b alo ahi blo bhi)"
proof -
  have "lies_in alo ahi (alo, blo, 0)"
    by (simp add: lies_in_def)
  then have "lies_in alo ahi (scan_is a b blo bhi [alo..<ahi] (Map.empty, (alo, blo, 0)))"
    by (intro scan_is_lies_in [of _ alo]) auto
  then show ?thesis
    unfolding find_longest_match_def
    by (intro extend_right_lies_in extend_left_lies_in)
qed

text \<open>\<open>get_matching_blocks\<close>: the loop \<open>while queue\<close>. The list \<open>queue\<close> is used as a stack;
  here its last element stands first. The sorting of the blocks, the merging of adjacent
  ones and the final sentinel \<open>(la, lb, 0)\<close> leave the sum of the sizes, which is all that
  \<open>ratio\<close> reads, as it is, and are left out.\<close>

function matching_blocks ::
  "string \<Rightarrow> string \<Rightarrow> (nat \<times> nat \<times> nat \<times> nat) list \<Rightarrow> match list \<Rightarrow> match list" where
  "matching_blocks a b [] blocks = blocks"
| "matching_blocks a b ((alo, ahi, blo, bhi) # queue) blocks =
     (case find_longest_match a b alo ahi blo bhi of
        (i, j, k) \<Rightarrow>
          if k \<noteq> 0
          then matching_blocks a b
                 ((if i + k < ahi \<and> j + k < bhi then [(i + k, ahi, j + k, bhi)] else [])
                  @ (if alo < i \<and> blo < j then [(alo, i, blo, j)] else [])
                  @ queue)
                 (blocks @ [(i, j, k)])
          else matching_blocks a b queue blocks)"
  by pat_completeness auto
termination
proof (relation "measure (\<lambda>(a, b, queue, blocks).
          sum_list (map (\<lambda>(alo, ahi, blo, bhi). 2 * (ahi - alo) + 1) queue))", goal_cases)
  case 1
  show ?case by simp
next
  case (2 a b alo ahi blo bhi queue blocks i y j k)
  then have "lies_in alo ahi (i, j, k)"
    using find_longest_match_lies_in [of alo ahi a b blo bhi] by simp
  then have "alo \<le> i" "i + k \<le> ahi"
    using \<open>k \<noteq> 0\<close> by (auto simp: lies_in_def)
  then show ?case
    using \<open>k \<noteq> 0\<close> by auto
next
  case 3
  then show ?case by simp
qed

definition get_matching_blocks :: "string \<Rightarrow> string \<Rightarrow> match list" where
  "get_matching_blocks a b = matching_blocks a b [(0, length a, 0, length b)] []"

text \<open>\<open>ratio\<close>: \<open>matches\<close> is the sum of the sizes of the matching blocks, and the result
  is \<open>2.0 * matches / length\<close>, or \<open>1.0\<close> for two empty strings. Python rounds the quotient
  to the nearest double; the exact quotient stands for it here.\<close>

definition matches :: "string \<Rightarrow> string \<Rightarrow> nat" where
  "matches a b = sum_list (map (\<lambda>(i, j, k). k) (get_matching_blocks a b))"

definition SequenceMatcher_ratio :: "string \<Rightarrow> string \<Rightarrow> real" where
  "SequenceMatcher_ratio a b =
     (if length a + length b \<noteq> 0
      then 2 * real (matches a b) / real (length a + length b)
      else 1)"

section \<open>Similarity matcher (check_skipped_imports.py)\<close>

subsection \<open>What the libraries decide\<close>

text \<open>
  Three things that \<open>find_potential_duplicates\<close> leaves to the Python runtime and to
  pandas are parameters of the model:
  \<^item> \<open>ratio\<close>: the value of \<open>SequenceMatcher(None, name, existing).ratio()\<close>;
  \<open>SequenceMatcher_ratio\<close> above is the instance used to evaluate examples;
  \<^item> \<open>set_order\<close>: the order in which \<open>for existing in names2\<close> visits the set built
  from a sequence of strings. CPython derives it from the strings' hashes, which are
  salted anew for every process, so it is not fixed by the contents of the set;
  \<^item> \<open>nargsort\<close>: the row positions that \<open>sort_values(by="similarity", ascending=False)\<close>
  computes from the column's values (pandas' \<open>nargsort\<close> with the default
  \<open>kind="quicksort"\<close>, which leaves the order of rows with equal values open).
\<close>

record library =
  ratio :: "string \<Rightarrow> string \<Rightarrow> real"
  set_order :: "string list \<Rightarrow> string list"
  nargsort :: "real list \<Rightarrow> nat list"

text \<open>What the runtime and pandas guarantee: iterating over a set visits each of its
  elements once, and the positions computed for sorting are a permutation of the rows
  along which the values descend.\<close>

definition library_ok :: "library \<Rightarrow> bool" where
  "library_ok L \<longleftrightarrow>
     (\<forall>xs. distinct (set_order L xs) \<and> set (set_order L xs) = set xs) \<and>
     (\<forall>ks. mset (nargsort L ks) = mset [0..<length ks] \<and>
           sorted_wrt (\<ge>) (map (\<lambda>i. ks ! i) (nargsort L ks)))"

text \<open>Two instances for evaluation. Both sort stably; the first visits a set in the order
  of its elements' last insertion, the second in the reverse of that order.\<close>

definition stable_descending :: "real list \<Rightarrow> nat list" where
  "stable_descending ks = map snd (sort_key (\<lambda>(k, i). - k) (zip ks [0..<length ks]))"

definition run1 :: library where
  "run1 = \<lparr>ratio = SequenceMatcher_ratio, set_order = remdups, nargsort = stable_descending\<rparr>"

definition run2 :: library where
  "run2 = \<lparr>ratio = SequenceMatcher_ratio, set_order = (\<lambda>xs. rev (remdups xs)),
            nargsort = stable_descending\<rparr>"

subsection \<open>find_potential_duplicates\<close>

datatype match_type = exact | fuzzy

text \<open>One dictionary appended to \<open>results\<close>, that is one row of the returned frame.\<close>

record candidate =
  name :: string
  match_type :: match_type
  similarity :: real
  existing_matches :: "string list"

text \<open>\<open>[str(n).lower().strip() for n in names if pd.notna(n)]\<close>\<close>

definition clean_names :: "cell list \<Rightarrow> string list" where
  "clean_names names = [strip (lower n). Some n \<leftarrow> names]"

text \<open>The loop \<open>for existing in names2\<close> for one name of \<open>names1\<close>; \<open>names2\<close> is the set in
  the order of its iteration.\<close>

definition close_matches :: "library \<Rightarrow> string \<Rightarrow> string list \<Rightarrow> real \<Rightarrow> (string \<times> real) list" where
  "close_matches L name1 names2 threshold =
     [(existing, ratio L name1 existing). existing \<leftarrow> names2,
        ratio L name1 existing \<ge> threshold]"

text \<open>The body of the loop \<open>for name in names1\<close>: the dictionaries it appends, none or one
  (\<open>found\<close> is the list \<open>close_matches\<close> of the source). \<open>list.sort(key=..., reverse=True)\<close>
  is stable: pairs with equal similarity keep their order.\<close>

definition match_name :: "library \<Rightarrow> string list \<Rightarrow> real \<Rightarrow> string \<Rightarrow> candidate list" where
  "match_name L names2 threshold name1 =
     (if name1 \<in> set names2
      then [\<lparr>name = name1, match_type = exact, similarity = 1, existing_matches = [name1]\<rparr>]
      else
        (let found = close_matches L name1 names2 threshold
         in if found \<noteq> []
            then
              (let found = sort_key (\<lambda>x. - snd x) found
               in [\<lparr>name = name1, match_type = fuzzy,
                     similarity = snd (found ! 0),
                     existing_matches = map fst found\<rparr>])
            else []))"

fun match_names :: "library \<Rightarrow> string list \<Rightarrow> real \<Rightarrow> string list \<Rightarrow> candidate list" where
  "match_names L names2 threshold [] = []"
| "match_names L names2 threshold (name1 # names1) =
     match_name L names2 threshold name1 @ match_names L names2 threshold names1"

text \<open>\<open>pd.DataFrame(results).sort_values(by="similarity", ascending=False)\<close>. A frame built
  from the empty list has no columns, and sorting it by a column raises \<open>KeyError\<close>.\<close>

definition sort_values :: "library \<Rightarrow> candidate list \<Rightarrow> error + candidate list" where
  "sort_values L results =
     (if results = [] then Inl (KeyError ''similarity'')
      else Inr (map (\<lambda>i. results ! i) (nargsort L (map similarity results))))"

definition find_potential_duplicates ::
  "library \<Rightarrow> cell list \<Rightarrow> cell list \<Rightarrow> real \<Rightarrow> error + candidate list" where
  "find_potential_duplicates L names1 names2 threshold =
     (let names1 = clean_names names1;
          names2 = set_order L (clean_names names2);
          results = match_names L names2 threshold names1
      in sort_values L results)"

subsection \<open>check_skipped_imports and the script's entry\<close>

text \<open>\<open>check_skipped_imports\<close> on the two tables as loaded, each row its (last, first,
  middle) cells; loading, printing and writing the result are left out.\<close>

definition check_skipped_imports ::
  "library \<Rightarrow> (cell \<times> cell \<times> cell) list \<Rightarrow> (cell \<times> cell \<times> cell) list \<Rightarrow> real
     \<Rightarrow> error + candidate list" where
  "check_skipped_imports L existing_df new_df similarity_threshold =
     (case combine_name_parts new_df of
        Inl e \<Rightarrow> Inl e
      | Inr names1 \<Rightarrow>
          (case combine_name_parts existing_df of
             Inl e \<Rightarrow> Inl e
           | Inr names2 \<Rightarrow>
               find_potential_duplicates L (map Some names1) (map Some names2)
                 similarity_threshold))"

text \<open>The block under \<open>if __name__ == "__main__"\<close>, after the arguments are parsed; the
  two tables stand for the files that the paths name.\<close>

definition main ::
  "library \<Rightarrow> (cell \<times> cell \<times> cell) list \<Rightarrow> (cell \<times> cell \<times> cell) list \<Rightarrow> real
     \<Rightarrow> error + candidate list" where
  "main L all_broadstripes skipped_entries similarity_threshold =
     (if similarity_threshold < 0 \<or> similarity_threshold > 1
      then Inl Threshold_out_of_range
      else check_skipped_imports L all_broadstripes skipped_entries similarity_threshold)"

subsection \<open>Reports that differ only in the order of ties\<close>

text \<open>Two candidates agree up to ties, for a similarity function \<open>r\<close>, when they agree on
  name, match type and similarity, list the same reference names, and list at each position
  references of the same ratio to the name.\<close>

definition same_up_to_ties :: "(string \<Rightarrow> string \<Rightarrow> real) \<Rightarrow> candidate \<Rightarrow> candidate \<Rightarrow> bool" where
  "same_up_to_ties r c c' \<longleftrightarrow>
     name c = name c' \<and> match_type c = match_type c' \<and> similarity c = similarity c' \<and>
     mset (existing_matches c) = mset (existing_matches c') \<and>
     map (r (name c)) (existing_matches c) = map (r (name c)) (existing_matches c')"

section \<open>Properties of the string operations\<close>

lemma isspace_chars:
  "\<not> isspace CHR '',''" "isspace CHR '' ''" "\<not> isspace CHR ''.''"
  by (simp_all add: isspace_def)

lemma split_on_not_Nil: "split_on sep s \<noteq> []"
  by (induction s) (auto split: list.splits)

lemma length_split_on: "length (split_on sep s) = Suc (count_list s sep)"
  by (induction s) (auto split: list.splits simp: split_on_not_Nil)

lemma split_on_no_sep: "sep \<notin> set s \<Longrightarrow> split_on sep s = [s]"
  by (induction s) auto

lemma split_on_append:
  "sep \<notin> set l \<Longrightarrow> split_on sep (l @ sep # r) = l # split_on sep r"
  by (induction l) auto

lemma strip_eq_Nil_iff: "strip s = [] \<longleftrightarrow> (\<forall>c\<in>set s. isspace c)"
proof -
  have "strip s = [] \<longleftrightarrow> (\<forall>c\<in>set (dropWhile isspace s). isspace c)"
    by (simp add: strip_def)
  also have "\<dots> \<longleftrightarrow> dropWhile isspace s = []"
    by (metis dropWhile_eq_Nil_conv dropWhile_idem)
  also have "\<dots> \<longleftrightarrow> (\<forall>c\<in>set s. isspace c)"
    by simp
  finally show ?thesis .
qed

lemma strip_id:
  assumes "s \<noteq> []" "\<not> isspace (hd s)" "\<not> isspace (last s)"
  shows "strip s = s"
proof -
  have a: "dropWhile isspace s = s"
    using assms(1,2) by (cases s) auto
  have "rev s \<noteq> []" "\<not> isspace (hd (rev s))"
    using assms(1,3) by (simp_all add: hd_rev)
  then have "dropWhile isspace (rev s) = rev s"
    by (cases "rev s") auto
  with a show ?thesis by (simp add: strip_def)
qed

lemma strip_Cons_space: "isspace c \<Longrightarrow> strip (c # s) = strip s"
  by (simp add: strip_def)

lemma strip_snoc_space: "isspace c \<Longrightarrow> strip (s @ [c]) = strip s"
  by (simp add: strip_def dropWhile_append)
    (metis dropWhile_eq_Nil_conv rev.simps(1) dropWhile.simps(1))

lemma strip_space_Cons:
  assumes "x \<noteq> []" "\<not> isspace (hd x)" "\<not> isspace (last x)"
  shows "strip (CHR '' '' # x) = x"
  using assms by (simp add: strip_Cons_space strip_id isspace_chars)

lemma dropWhile_keeps: "c \<in> set s \<Longrightarrow> \<not> P c \<Longrightarrow> c \<in> set (dropWhile P s)"
  by (induction s) auto

lemma strip_keeps: "c \<in> set s \<Longrightarrow> \<not> isspace c \<Longrightarrow> c \<in> set (strip s)"
  by (simp add: strip_def dropWhile_keeps)

lemma split_ws_Nil [simp]: "split_ws [] = []"
  by (simp add: split_ws.simps)

lemma split_ws_space_Cons: "isspace c \<Longrightarrow> split_ws (c # s) = split_ws s"
  by (subst split_ws.simps, subst (2) split_ws.simps) simp

lemma split_ws_word_append:
  assumes "word w" "r = [] \<or> isspace (hd r)"
  shows "split_ws (w @ r) = w # split_ws r"
proof -
  obtain c cs where w: "w = c # cs" using assms(1) by (cases w) (auto simp: word_def)
  have ns: "\<forall>x\<in>set w. \<not> isspace x" using assms(1) by (simp add: word_def)
  have d: "dropWhile isspace (w @ r) = c # (cs @ r)"
    using w ns by simp
  have t: "takeWhile (\<lambda>x. \<not> isspace x) (c # (cs @ r)) = w"
    using w ns assms(2) by (cases r) (auto simp: takeWhile_append)
  have r: "dropWhile (\<lambda>x. \<not> isspace x) (cs @ r) = r"
    using w ns assms(2) by (cases r) (auto simp: dropWhile_append)
  show ?thesis
    by (subst split_ws.simps) (simp only: d t r list.case)
qed

lemma split_ws_word: "word w \<Longrightarrow> split_ws w = [w]"
  using split_ws_word_append [of w "[]"] by simp

lemma split_ws_join:
  "\<forall>w\<in>set ws. word w \<Longrightarrow> split_ws (join '' '' ws) = ws"
proof (induction "'' ''" ws rule: join.induct)
  case 1
  then show ?case by simp
next
  case (2 w)
  then show ?case by (simp add: split_ws_word)
next
  case (3 w v ws)
  have "split_ws (w @ CHR '' '' # join '' '' (v # ws))
          = w # split_ws (CHR '' '' # join '' '' (v # ws))"
    using 3 by (intro split_ws_word_append) (simp_all add: isspace_chars)
  then show ?case using 3 by (simp add: split_ws_space_Cons isspace_chars)
qed

lemma split_ws_words: "\<forall>w\<in>set (split_ws s). word w"
proof (induction s rule: split_ws.induct)
  case (1 s)
  show ?case
  proof (cases "dropWhile isspace s")
    case Nil
    then show ?thesis
      by (subst split_ws.simps) (simp only: Nil list.case list.set ball_empty)
  next
    case (Cons c cs)
    then have c: "\<not> isspace c"
      by (metis hd_dropWhile list.sel(1) list.distinct(1))
    have "word (takeWhile (\<lambda>x. \<not> isspace x) (c # cs))"
      using c by (auto simp: word_def dest: set_takeWhileD)
    moreover have "\<forall>w\<in>set (split_ws (dropWhile (\<lambda>x. \<not> isspace x) cs)). word w"
      using 1 Cons by blast
    moreover have "split_ws s = takeWhile (\<lambda>x. \<not> isspace x) (c # cs)
                        # split_ws (dropWhile (\<lambda>x. \<not> isspace x) cs)"
      by (subst split_ws.simps) (simp only: Cons list.case)
    ultimately show ?thesis by simp
  qed
qed

lemma join_snoc: "ws \<noteq> [] \<Longrightarrow> join sep (ws @ [w]) = join sep ws @ sep @ w"
  by (induction sep ws rule: join.induct) auto

lemma hd_join: "ws \<noteq> [] \<Longrightarrow> hd ws \<noteq> [] \<Longrightarrow> hd (join sep ws) = hd (hd ws)"
  by (induction sep ws rule: join.induct) auto

lemma join_not_Nil: "ws \<noteq> [] \<Longrightarrow> last ws \<noteq> [] \<Longrightarrow> join sep ws \<noteq> []"
  by (induction sep ws rule: join.induct) auto

lemma last_join: "ws \<noteq> [] \<Longrightarrow> last ws \<noteq> [] \<Longrightarrow> last (join sep ws) = last (last ws)"
  by (induction sep ws rule: join.induct) (auto simp: join_not_Nil)

lemma endswith_dot: "endswith s ''.'' \<longleftrightarrow> s \<noteq> [] \<and> last s = CHR ''.''"
proof (cases s rule: rev_cases)
  case Nil
  then show ?thesis by (simp add: endswith_def)
next
  case (snoc ys y)
  then show ?thesis by (auto simp: endswith_def)
qed

lemma canonical_first:
  assumes "first \<noteq> []" "join '' '' (split_ws first) = first"
  shows "split_ws first \<noteq> []" "\<not> isspace (hd first)" "\<not> isspace (last first)"
    "last (split_ws first) \<noteq> []" "last first = last (last (split_ws first))"
proof -
  let ?ws = "split_ws first"
  show ne: "?ws \<noteq> []" using assms by auto
  have w: "\<forall>w\<in>set ?ws. word w" by (rule split_ws_words)
  then have h: "word (hd ?ws)" and l: "word (last ?ws)" using ne by simp_all
  show "last ?ws \<noteq> []" using l by (simp add: word_def)
  have "hd (join '' '' ?ws) = hd (hd ?ws)"
    using ne h by (simp add: hd_join word_def)
  then show "\<not> isspace (hd first)" using h assms(2) by (simp add: word_def)
  have "last (join '' '' ?ws) = last (last ?ws)"
    using ne l by (simp add: last_join word_def)
  then show "last first = last (last ?ws)" using assms(2) by simp
  then show "\<not> isspace (last first)" using l by (simp add: word_def)
qed

section \<open>The name canonicalizer: claims\<close>

text \<open>C9. The reverse operation fails with an InvalidName error (one of the two
  \<open>ValueError\<close>s of the loop body) exactly when the value is not a string that is
  non-empty after trimming, or when its number of commas is not one.\<close>

theorem parse_fullname_InvalidName_iff:
  "(\<exists>e. parse_fullname v = Inl e \<and> InvalidName e) \<longleftrightarrow>
     (case v of
        None \<Rightarrow> True
      | Some s \<Rightarrow> strip s = [] \<or> count_list s CHR '','' \<noteq> 1)"
  by (auto simp: parse_fullname_def Let_def length_split_on split: option.splits)

theorem parse_fullname_InvalidName_iff_witness:
  "(\<exists>e. parse_fullname (Some ''Doe Jane'') = Inl e \<and> InvalidName e) \<and>
   (\<exists>e. parse_fullname (Some ''Roe, Richard, Jr.'') = Inl e \<and> InvalidName e) \<and>
   (\<exists>e. parse_fullname None = Inl e \<and> InvalidName e) \<and>
   \<not> (\<exists>e. parse_fullname (Some ''Doe, Jane M.'') = Inl e \<and> InvalidName e)"
proof -
  have a: "count_list ''Doe Jane'' CHR '','' \<noteq> 1"
    and b: "count_list ''Roe, Richard, Jr.'' CHR '','' \<noteq> 1"
    and c: "\<not> (strip ''Doe, Jane M.'' = [] \<or> count_list ''Doe, Jane M.'' CHR '','' \<noteq> 1)"
    by code_simp+
  show ?thesis
    using a b c
      parse_fullname_InvalidName_iff [of "Some ''Doe Jane''"]
      parse_fullname_InvalidName_iff [of "Some ''Roe, Richard, Jr.''"]
      parse_fullname_InvalidName_iff [of None]
      parse_fullname_InvalidName_iff [of "Some ''Doe, Jane M.''"]
    by (simp only: option.case simp_thms)
qed

text \<open>C10. A string that passes both checks (non-empty after trimming, exactly one comma)
  but has only whitespace, or nothing, after its comma makes \<open>rest.split()\<close> the empty
  list, and \<open>parts[-1]\<close> raises IndexError: neither a name nor an InvalidName error.\<close>

theorem parse_fullname_blank_rest:
  assumes "strip s \<noteq> []" and "count_list s CHR '','' = 1"
    and "s = l @ CHR '','' # r" and "strip r = []"
  shows "parse_fullname (Some s) = Inl IndexError"
proof -
  have "count_list s CHR '','' = count_list l CHR '','' + 1 + count_list r CHR '',''"
    by (simp add: assms(3))
  then have nl: "CHR '','' \<notin> set l" and nr: "CHR '','' \<notin> set r"
    using assms(2) by (auto simp: count_list_0_iff)
  have parts: "split_on CHR '','' s = [l, r]"
    by (simp add: assms(3) split_on_append nl split_on_no_sep nr)
  show ?thesis
    using assms(1,4) by (simp add: parse_fullname_def parts)
qed

theorem parse_fullname_blank_rest_witness:
  "parse_fullname (Some ''Doe,'') = Inl IndexError \<and>
   parse_fullname (Some ''Doe,   '') = Inl IndexError"
proof -
  have a: "strip ''Doe,'' \<noteq> []" "count_list ''Doe,'' CHR '','' = 1"
    "''Doe,'' = ''Doe'' @ CHR '','' # []" "strip [] = []"
    by code_simp+
  have b: "strip ''Doe,   '' \<noteq> []" "count_list ''Doe,   '' CHR '','' = 1"
    "''Doe,   '' = ''Doe'' @ CHR '','' # ''   ''" "strip ''   '' = []"
    by code_simp+
  show ?thesis
    using parse_fullname_blank_rest [OF a] parse_fullname_blank_rest [OF b] by (rule conjI)
qed

text \<open>C3. The claim is that a row whose three name parts are all blank or missing makes
  the forward operation fail. In the code the check \<open>if not full_name\<close> never fires: the
  format string always contributes its comma, and a row of blank or missing parts yields
  the name \<open>","\<close>.\<close>

theorem combine_name_all_blank:
  assumes "\<forall>p\<in>{p1, p2, p3}. case p of None \<Rightarrow> True | Some s \<Rightarrow> strip s = []"
  shows "combine_name (p1, p2, p3) = Inr '',''"
proof -
  have sp: "\<forall>c\<in>set (clean_name_part p). isspace c" if "p \<in> {p1, p2, p3}" for p
    using assms that by (cases p) (auto simp: clean_name_part_def strip_eq_Nil_iff)
  define l where "l = clean_name_part p1"
  define f where "f = clean_name_part p2"
  define m where "m = clean_name_part p3"
  define rest where "rest = '' '' @ f @ '' '' @ m"
  have l: "\<forall>c\<in>set l. isspace c" and rest: "\<forall>c\<in>set (rev rest). isspace c"
    using sp[of p1] sp[of p2] sp[of p3]
    by (auto simp: l_def f_def m_def rest_def isspace_chars)
  have "dropWhile isspace (l @ CHR '','' # rest) = CHR '','' # rest"
    using l by (simp add: dropWhile_append2 isspace_chars)
  moreover have "dropWhile isspace (rev rest @ '','') = '',''"
    using rest by (simp add: dropWhile_append2 isspace_chars del: set_rev)
  ultimately have "strip (l @ CHR '','' # rest) = '',''"
    by (simp add: strip_def)
  then have "strip (l @ '', '' @ f @ '' '' @ m) = '',''"
    by (simp add: rest_def)
  then show ?thesis
    by (simp add: combine_name_def l_def f_def m_def)
qed

theorem combine_name_all_blank_witness:
  "combine_name (None, None, None) = Inr '','' \<and>
   combine_name (Some ''  '', Some [], None) = Inr '',''"
proof -
  have a: "\<forall>p\<in>{None, None, None :: cell}. case p of None \<Rightarrow> True | Some s \<Rightarrow> strip s = []"
    by simp
  have "strip ''  '' = []" "strip [] = []"
    by code_simp+
  then have b: "\<forall>p\<in>{Some ''  '', Some [], None}. case p of None \<Rightarrow> True | Some s \<Rightarrow> strip s = []"
    by simp
  show ?thesis
    using combine_name_all_blank [OF a] combine_name_all_blank [OF b] by (rule conjI)
qed

text \<open>The check of the forward operation is dead code: it returns a name, which holds a
  comma, for every row.\<close>

lemma combine_name_returns:
  "\<exists>full_name. combine_name parts = Inr full_name \<and> CHR '','' \<in> set full_name"
proof -
  obtain p1 p2 p3 where p: "parts = (p1, p2, p3)" by (cases parts) auto
  have "CHR '','' \<in> set (strip (clean_name_part p1 @ '', '' @ clean_name_part p2
                                  @ '' '' @ clean_name_part p3))"
    by (rule strip_keeps) (simp_all add: isspace_chars)
  then show ?thesis
    by (auto simp: combine_name_def p Let_def)
qed

lemma combine_name_parts_returns:
  "\<exists>combined_names. combine_name_parts rows = Inr combined_names"
proof (induction rows)
  case Nil
  then show ?case by simp
next
  case (Cons parts rows)
  then show ?case using combine_name_returns [of parts] by auto
qed

text \<open>C1. As stated (any last and first name that are non-empty after trimming, any
  middle name) the round trip fails: a middle name that does not end with a period comes
  back as part of the first name.\<close>

theorem round_trip_counterexample:
  "combine_name (Some ''Doe'', Some ''Jane'', Some ''Michael'') = Inr ''Doe, Jane Michael'' \<and>
   parse_fullname (Some ''Doe, Jane Michael'') = Inr (''Doe'', ''Jane Michael'', []) \<and>
   (''Doe'', ''Jane Michael'', []) \<noteq> (''Doe'', ''Jane'', ''Michael'')"
  by code_simp

text \<open>C1, amended. For name parts of the shape \<open>canonical_parts\<close> (no commas, a last name
  without surrounding whitespace, a first name of words separated by single spaces, a
  middle name that is empty or one word ending with a period, and a first name that does
  not end with a period when the middle name is empty), splitting the combined name gives
  the three parts back.\<close>

theorem round_trip_canonical:
  assumes "canonical_parts lastn first middle"
  shows "\<exists>s. combine_name (Some lastn, Some first, Some middle) = Inr s \<and>
             parse_fullname (Some s) = Inr (lastn, first, middle)"
proof -
  let ?ws = "split_ws first"
  have l: "lastn \<noteq> []" "\<not> isspace (hd lastn)" "\<not> isspace (last lastn)"
      "CHR '','' \<notin> set lastn"
    and f: "first \<noteq> []" "join '' '' ?ws = first" "CHR '','' \<notin> set first"
    using assms by (simp_all add: canonical_parts_def)
  note cf = canonical_first [OF f(1,2)]
  have sl: "strip lastn = lastn" using l by (simp add: strip_id)
  show ?thesis
  proof (cases "middle = []")
    case True
    then have nd: "\<not> endswith first ''.''"
      using assms by (simp add: canonical_parts_def)
    define s where "s = lastn @ '', '' @ first"
    have sne: "s \<noteq> []" by (simp add: s_def)
    have ss: "strip s = s"
      using l f cf by (intro strip_id) (simp_all add: s_def)
    have "strip (s @ '' '') = strip s"
      using strip_snoc_space [of "CHR '' ''" s] by (simp add: isspace_chars)
    then have comb: "combine_name (Some lastn, Some first, Some middle) = Inr s"
      using ss sne True by (simp add: combine_name_def clean_name_part_def s_def)
    have parts: "split_on CHR '','' s = [lastn, CHR '' '' # first]"
      using l f by (simp add: s_def split_on_append split_on_no_sep)
    have rest: "strip (CHR '' '' # first) = first"
      using f cf by (simp add: strip_space_Cons)
    have "\<not> endswith (last ?ws) ''.''"
      using nd cf f by (simp add: endswith_dot)
    then have "parse_fullname (Some s) = Inr (lastn, first, middle)"
      using ss sne cf f True by (simp add: parse_fullname_def parts rest sl)
    with comb show ?thesis by blast
  next
    case False
    then have m: "split_ws middle = [middle]" "CHR '','' \<notin> set middle"
        "endswith middle ''.''"
      using assms by (simp_all add: canonical_parts_def)
    have wm: "word middle" using split_ws_words [of middle] m(1) by simp
    define r where "r = first @ '' '' @ middle"
    define s where "s = lastn @ '', '' @ r"
    have sne: "s \<noteq> []" by (simp add: s_def)
    have lastr: "last r = CHR ''.''" "r \<noteq> []" "hd r = hd first"
      using m(3) f False by (simp_all add: r_def endswith_dot)
    have ss: "strip s = s"
      using l lastr by (intro strip_id) (simp_all add: s_def isspace_chars)
    have comb: "combine_name (Some lastn, Some first, Some middle) = Inr s"
      using ss sne by (simp add: combine_name_def clean_name_part_def s_def r_def)
    have parts: "split_on CHR '','' s = [lastn, CHR '' '' # r]"
      using l f m by (simp add: s_def r_def split_on_append split_on_no_sep)
    have rest: "strip (CHR '' '' # r) = r"
      using lastr cf by (simp add: strip_space_Cons isspace_chars)
    have "r = join '' '' (?ws @ [middle])"
      using cf f by (simp add: join_snoc r_def)
    then have toks: "split_ws r = ?ws @ [middle]"
      using split_ws_join [of "?ws @ [middle]"] split_ws_words [of first] wm by simp
    have "parse_fullname (Some s) = Inr (lastn, first, middle)"
      using ss sne m(3) f by (simp add: parse_fullname_def parts rest sl toks)
    with comb show ?thesis by blast
  qed
qed

theorem round_trip_canonical_witness:
  "(\<exists>s. combine_name (Some ''Doe'', Some ''Jane'', Some ''M.'') = Inr s \<and>
        parse_fullname (Some s) = Inr (''Doe'', ''Jane'', ''M.'')) \<and>
   (\<exists>s. combine_name (Some ''van Dyke'', Some ''Mary Ann'', Some []) = Inr s \<and>
        parse_fullname (Some s) = Inr (''van Dyke'', ''Mary Ann'', []))"
proof -
  have a: "canonical_parts ''Doe'' ''Jane'' ''M.''"
    by code_simp
  have b: "canonical_parts ''van Dyke'' ''Mary Ann'' []"
    by code_simp
  show ?thesis
    using round_trip_canonical [OF a] round_trip_canonical [OF b] by (rule conjI)
qed

subsection \<open>The round trip holds for no other name parts\<close>

lemma split_on_no_sep_in_parts: "\<forall>p\<in>set (split_on sep s). sep \<notin> set p"
proof (induction s)
  case Nil
  then show ?case by simp
next
  case (Cons c s)
  then show ?case
    by (cases "split_on sep s") (auto split: if_splits)
qed

lemma set_strip: "set (strip s) \<subseteq> set s"
proof -
  have "set (strip s) \<subseteq> set (dropWhile isspace s)"
    unfolding strip_def set_rev by (metis set_dropWhileD set_rev subsetI)
  also have "\<dots> \<subseteq> set s"
    by (auto dest: set_dropWhileD)
  finally show ?thesis .
qed

lemma last_dropWhile: "dropWhile P xs \<noteq> [] \<Longrightarrow> last (dropWhile P xs) = last xs"
  by (induction xs) (auto split: if_splits)

lemma strip_ends:
  assumes "strip s \<noteq> []"
  shows "\<not> isspace (hd (strip s))" "\<not> isspace (last (strip s))"
proof -
  define t where "t = dropWhile isspace s"
  let ?d = "dropWhile isspace (rev t)"
  have ne: "?d \<noteq> []" using assms by (simp add: strip_def t_def)
  then have "\<not> isspace (hd ?d)" by (rule hd_dropWhile)
  then show "\<not> isspace (last (strip s))"
    using ne by (simp add: strip_def last_rev t_def)
  have t: "t \<noteq> []"
    using ne by (cases t) simp_all
  then have h: "\<not> isspace (hd t)"
    unfolding t_def by (rule hd_dropWhile)
  have "hd (strip s) = last ?d"
    using ne by (simp add: strip_def hd_rev t_def)
  also have "\<dots> = last (rev t)"
    using ne by (rule last_dropWhile)
  also have "\<dots> = hd t"
    using t by (simp add: last_rev)
  finally show "\<not> isspace (hd (strip s))" using h by simp
qed

lemma set_dropWhile_subset: "set (dropWhile P xs) \<subseteq> set xs"
  by (auto dest: set_dropWhileD)

lemma set_takeWhile_subset: "set (takeWhile P xs) \<subseteq> set xs"
  by (auto dest: set_takeWhileD)

lemma set_split_ws: "\<forall>w\<in>set (split_ws s). set w \<subseteq> set s"
proof (induction s rule: split_ws.induct)
  case (1 s)
  show ?case
  proof (cases "dropWhile isspace s")
    case Nil
    then show ?thesis
      by (subst split_ws.simps) (simp only: Nil list.case list.set ball_empty)
  next
    case (Cons c cs)
    have "set (dropWhile isspace s) \<subseteq> set s"
      by (rule set_dropWhile_subset)
    then have sub: "set (c # cs) \<subseteq> set s"
      by (simp only: Cons)
    have eq: "split_ws s = takeWhile (\<lambda>x. \<not> isspace x) (c # cs)
                        # split_ws (dropWhile (\<lambda>x. \<not> isspace x) cs)"
      by (subst split_ws.simps) (simp only: Cons list.case)
    have "set (takeWhile (\<lambda>x. \<not> isspace x) (c # cs)) \<subseteq> set (c # cs)"
      by (rule set_takeWhile_subset)
    then have first: "set (takeWhile (\<lambda>x. \<not> isspace x) (c # cs)) \<subseteq> set s"
      using sub by (rule subset_trans)
    have "set (dropWhile (\<lambda>x. \<not> isspace x) cs) \<subseteq> set cs"
      by (rule set_dropWhile_subset)
    then have rest: "set (dropWhile (\<lambda>x. \<not> isspace x) cs) \<subseteq> set s"
      using sub by auto
    have "\<forall>w\<in>set (split_ws (dropWhile (\<lambda>x. \<not> isspace x) cs)).
            set w \<subseteq> set (dropWhile (\<lambda>x. \<not> isspace x) cs)"
      by (rule "1.IH" [OF Cons])
    then have "\<forall>w\<in>set (split_ws (dropWhile (\<lambda>x. \<not> isspace x) cs)). set w \<subseteq> set s"
      using rest by (meson subset_trans)
    then show ?thesis
      unfolding eq using first by simp
  qed
qed

lemma set_join: "set (join sep ws) \<subseteq> set sep \<union> (\<Union>w\<in>set ws. set w)"
  by (induction sep ws rule: join.induct) auto

text \<open>Whatever the reverse operation returns, with a last and a first name that are not
  empty, has the shape \<open>canonical_parts\<close>. So name parts that come back from a round
  trip are of that shape: the round trip holds for no other parts.\<close>

lemma parse_fullname_canonical:
  assumes "parse_fullname (Some s) = Inr (lastn, first, middle)"
    and "lastn \<noteq> []" and "first \<noteq> []"
  shows "canonical_parts lastn first middle"
proof -
  from assms(1) obtain p0 p1 where parts: "split_on CHR '','' s = [p0, p1]"
    by (cases "split_on CHR '','' s" rule: list.exhaust)
      (auto simp: parse_fullname_def Let_def length_Suc_conv split: if_splits)
  let ?ws = "split_ws (strip p1)"
  have l: "lastn = strip p0" and ne: "?ws \<noteq> []"
    and fm: "if endswith (last ?ws) ''.''
             then first = join '' '' (butlast ?ws) \<and> middle = last ?ws
             else first = join '' '' ?ws \<and> middle = []"
    using assms(1) by (auto simp: parse_fullname_def Let_def parts split: if_splits)
  have nc: "CHR '','' \<notin> set p0" "CHR '','' \<notin> set p1"
    using split_on_no_sep_in_parts [of "CHR '',''" s] by (simp_all add: parts)
  have words: "\<forall>w\<in>set ?ws. word w"
    by (rule split_ws_words)
  have wnc: "\<forall>w\<in>set ?ws. CHR '','' \<notin> set w"
    using set_split_ws [of "strip p1"] set_strip [of p1] nc(2) by blast
  have lw: "word (last ?ws)" "CHR '','' \<notin> set (last ?ws)"
    using ne words wnc by simp_all
  obtain ws where f: "first = join '' '' ws" and ws: "set ws \<subseteq> set ?ws"
    using fm by (cases "endswith (last ?ws) ''.''") (auto dest: in_set_butlastD)
  have wws: "\<forall>w\<in>set ws. word w"
    using ws words by blast
  then have j: "join '' '' (split_ws first) = first"
    by (simp add: f split_ws_join)
  have fc: "CHR '','' \<notin> set first"
    using set_join [of "'' ''" ws] ws wnc unfolding f by auto
  have ll: "\<not> isspace (hd lastn)" "\<not> isspace (last lastn)" "CHR '','' \<notin> set lastn"
    using strip_ends [of p0] assms(2) set_strip [of p0] nc(1) unfolding l by auto
  have m: "if middle = [] then \<not> endswith first ''.''
           else split_ws middle = [middle] \<and> CHR '','' \<notin> set middle \<and> endswith middle ''.''"
  proof (cases "endswith (last ?ws) ''.''")
    case True
    then have "middle = last ?ws" using fm by simp
    then show ?thesis
      using True lw by (simp add: split_ws_word word_def)
  next
    case False
    then have "first = join '' '' ?ws" "middle = []" using fm by simp_all
    moreover have "last (join '' '' ?ws) = last (last ?ws)"
      using ne lw by (simp add: last_join word_def)
    ultimately show ?thesis
      using False lw by (simp add: endswith_dot word_def)
  qed
  show ?thesis
    unfolding canonical_parts_def using assms(2,3) ll j fc m by simp
qed

subsection \<open>The check at the end of parse_fullnames\<close>

lemma parse_rows_length: "parse_rows col = Inr persons \<Longrightarrow> length persons = length col"
  by (induction col arbitrary: persons) (auto split: sum.splits)

text \<open>When \<open>parse_fullnames\<close> returns, every value of the column is the reconstruction of
  the name parts found for it.\<close>

lemma parse_fullnames_reconstructs:
  assumes "parse_fullnames col = Inr persons"
  shows "col = map (\<lambda>person. Some (reconstruct person)) persons"
proof -
  have rows: "parse_rows col = Inr persons"
    and all: "\<forall>(orig, person)\<in>set (zip col persons). Some (reconstruct person) = orig"
    using assms
    by (auto simp: parse_fullnames_def Let_def filter_empty_conv split: sum.splits if_splits)
  have len: "length persons = length col"
    using rows by (rule parse_rows_length)
  show ?thesis
  proof (rule nth_equalityI)
    show "length col = length (map (\<lambda>person. Some (reconstruct person)) persons)"
      using len by simp
  next
    fix i assume "i < length col"
    then have "(col ! i, persons ! i) \<in> set (zip col persons)"
      using len by (metis in_set_conv_nth length_zip min.idem nth_zip)
    then show "col ! i = map (\<lambda>person. Some (reconstruct person)) persons ! i"
      using all \<open>i < length col\<close> len by auto
  qed
qed

section \<open>Properties of the matcher's parts\<close>

subsection \<open>The two instances keep the libraries' guarantees\<close>

lemma stable_descending_perm: "mset (stable_descending ks) = mset [0..<length ks]"
proof -
  have "mset (stable_descending ks) = mset (map snd (zip ks [0..<length ks]))"
    unfolding stable_descending_def mset_map by (simp only: mset_sort)
  then show ?thesis by simp
qed

lemma stable_descending_sorted:
  "sorted_wrt (\<ge>) (map (\<lambda>i. ks ! i) (stable_descending ks))"
proof -
  define srt where "srt = sort_key (\<lambda>(k, i). - k) (zip ks [0..<length ks])"
  have "set srt = set (zip ks [0..<length ks])"
    by (simp add: srt_def)
  then have nth: "\<forall>p\<in>set srt. ks ! snd p = fst p"
    by (auto simp: set_zip)
  have "sorted (map (\<lambda>(k, i). - k) srt)"
    unfolding srt_def by (rule sorted_sort_key)
  then have "sorted_wrt (\<lambda>p q. fst p \<ge> fst q) srt"
    by (simp add: sorted_map sorted_wrt_iff_nth_less case_prod_beta)
  then have "sorted_wrt (\<ge>) (map fst srt)"
    by (simp add: sorted_wrt_map)
  moreover have "map (\<lambda>i. ks ! i) (map snd srt) = map fst srt"
    using nth by simp
  moreover have "stable_descending ks = map snd srt"
    by (simp add: stable_descending_def srt_def)
  ultimately show ?thesis
    by (simp only:)
qed

lemma library_ok_run1: "library_ok run1"
  by (simp add: library_ok_def run1_def stable_descending_perm stable_descending_sorted)

lemma library_ok_run2: "library_ok run2"
  by (simp add: library_ok_def run2_def stable_descending_perm stable_descending_sorted)

subsection \<open>Sorting the frame\<close>

lemma nargsort_in_range:
  assumes "library_ok L" and "i \<in> set (nargsort L ks)"
  shows "i < length ks"
proof -
  have "set (nargsort L ks) = set [0..<length ks]"
    using assms(1) by (metis library_ok_def set_mset_mset)
  then show ?thesis using assms(2) by simp
qed

lemma sort_values_Inr_iff: "(\<exists>report. sort_values L results = Inr report) \<longleftrightarrow> results \<noteq> []"
  by (simp add: sort_values_def)

lemma sort_values_mset:
  assumes "library_ok L" and "sort_values L results = Inr report"
  shows "mset report = mset results"
proof -
  let ?p = "nargsort L (map similarity results)"
  have p: "mset ?p = mset [0..<length results]"
    using assms(1) by (simp add: library_ok_def)
  have "report = map (\<lambda>i. results ! i) ?p"
    using assms(2) by (simp add: sort_values_def split: if_splits)
  then have "mset report = image_mset (\<lambda>i. results ! i) (mset ?p)"
    by simp
  also have "\<dots> = mset (map (\<lambda>i. results ! i) [0..<length results])"
    by (simp only: p mset_map)
  also have "\<dots> = mset results"
    by (simp add: map_nth)
  finally show ?thesis .
qed


subsection \<open>The loop over the names\<close>

lemma set_match_names:
  "set (match_names L names2 threshold names1)
     = (\<Union>name1\<in>set names1. set (match_name L names2 threshold name1))"
  by (induction names1) auto

lemma match_name_name: "c \<in> set (match_name L names2 threshold name1) \<Longrightarrow> name c = name1"
  by (auto simp: match_name_def Let_def split: if_splits)

lemma match_name_exact:
  "name1 \<in> set names2 \<Longrightarrow>
     match_name L names2 threshold name1
       = [\<lparr>name = name1, match_type = exact, similarity = 1, existing_matches = [name1]\<rparr>]"
  by (simp add: match_name_def)

lemma clean_names_Some: "Some n \<in> set names \<Longrightarrow> strip (lower n) \<in> set (clean_names names)"
  by (induction names) (auto simp: clean_names_def)

lemma close_matches_filter:
  "close_matches L name1 names2 threshold
     = map (\<lambda>existing. (existing, ratio L name1 existing))
         (filter (\<lambda>existing. ratio L name1 existing \<ge> threshold) names2)"
  by (induction names2) (auto simp: close_matches_def)

subsection \<open>Two iteration orders of the reference set\<close>

lemma sort_key_keys_unique:
  fixes f :: "'a \<Rightarrow> real"
  assumes "mset xs = mset ys"
  shows "map f (sort_key f xs) = map f (sort_key f ys)"
proof -
  have "mset (map f (sort_key f xs)) = mset (map f (sort_key f ys))"
    using assms by simp
  moreover have "sorted (map f (sort_key f xs))" "sorted (map f (sort_key f ys))"
    by (rule sorted_sort_key)+
  ultimately show ?thesis
    by (metis properties_for_sort)
qed

lemma close_matches_mset:
  assumes "mset names2 = mset names2'" and "ratio L' = ratio L"
  shows "mset (close_matches L name1 names2 threshold)
           = mset (close_matches L' name1 names2' threshold)"
  using assms by (simp add: close_matches_filter)

lemma close_matches_snd:
  "p \<in> set (close_matches L name1 names2 threshold) \<Longrightarrow> snd p = ratio L name1 (fst p)"
  by (auto simp: close_matches_filter)

lemma match_name_same_up_to_ties:
  assumes "mset names2 = mset names2'" and "ratio L' = ratio L"
  shows "list_all2 (same_up_to_ties (ratio L))
           (match_name L names2 threshold name1) (match_name L' names2' threshold name1)"
proof (cases "name1 \<in> set names2")
  case True
  moreover have "name1 \<in> set names2'"
    using True assms(1) by (metis set_mset_mset)
  ultimately show ?thesis
    by (simp add: match_name_exact same_up_to_ties_def)
next
  case False
  then have False': "name1 \<notin> set names2'"
    using assms(1) by (metis set_mset_mset)
  let ?f = "\<lambda>x :: string \<times> real. - snd x"
  let ?cm = "close_matches L name1 names2 threshold"
  let ?cm' = "close_matches L' name1 names2' threshold"
  have cm: "mset ?cm = mset ?cm'"
    using assms by (rule close_matches_mset)
  show ?thesis
  proof (cases "?cm = []")
    case True
    moreover have "length ?cm = length ?cm'"
      using cm by (rule mset_eq_length)
    ultimately have "?cm' = []" by simp
    with True False False' show ?thesis
      by (simp add: match_name_def)
  next
    case ne: False
    have "length ?cm = length ?cm'"
      using cm by (rule mset_eq_length)
    with ne have ne': "?cm' \<noteq> []" by auto
    let ?s = "sort_key ?f ?cm" and ?s' = "sort_key ?f ?cm'"
    have "map ?f ?s = map ?f ?s'"
      using cm by (rule sort_key_keys_unique)
    then have "map uminus (map ?f ?s) = map uminus (map ?f ?s')"
      by (simp only:)
    then have snd_eq: "map snd ?s = map snd ?s'"
      by (simp add: comp_def)
    have len: "0 < length ?s" "0 < length ?s'"
      using ne ne' by simp_all
    have "map snd ?s ! 0 = map snd ?s' ! 0"
      by (simp only: snd_eq)
    then have hd_eq: "snd (?s ! 0) = snd (?s' ! 0)"
      using len by (simp only: nth_map)
    have fst_eq: "mset (map fst ?s) = mset (map fst ?s')"
      using cm by simp
    have "map (ratio L name1) (map fst ?s) = map snd ?s"
      using close_matches_snd [of _ L name1 names2 threshold] by simp
    moreover have "map (ratio L name1) (map fst ?s') = map snd ?s'"
      using close_matches_snd [of _ L' name1 names2' threshold] assms(2) by simp
    ultimately have r_eq: "map (ratio L name1) (map fst ?s) = map (ratio L name1) (map fst ?s')"
      using snd_eq by simp
    have "match_name L names2 threshold name1
            = [\<lparr>name = name1, match_type = fuzzy, similarity = snd (?s ! 0),
                 existing_matches = map fst ?s\<rparr>]"
      using False ne by (simp add: match_name_def Let_def)
    moreover have "match_name L' names2' threshold name1
            = [\<lparr>name = name1, match_type = fuzzy, similarity = snd (?s' ! 0),
                 existing_matches = map fst ?s'\<rparr>]"
      using False' ne' by (simp add: match_name_def Let_def)
    ultimately show ?thesis
      using hd_eq fst_eq r_eq by (simp add: same_up_to_ties_def)
  qed
qed

lemma match_names_same_up_to_ties:
  assumes "mset names2 = mset names2'" and "ratio L' = ratio L"
  shows "list_all2 (same_up_to_ties (ratio L))
           (match_names L names2 threshold names1) (match_names L' names2' threshold names1)"
  by (induction names1)
    (simp_all add: list_all2_appendI match_name_same_up_to_ties [OF assms])

lemma same_up_to_ties_similarity:
  "list_all2 (same_up_to_ties r) cs cs' \<Longrightarrow> map similarity cs = map similarity cs'"
  by (induction rule: list_all2_induct) (simp_all add: same_up_to_ties_def)

subsection \<open>What the matcher returns\<close>

lemma length_match_name: "length (match_name L names2 threshold name1) \<le> 1"
  by (simp add: match_name_def Let_def)

lemma length_match_names: "length (match_names L names2 threshold names1) \<le> length names1"
proof (induction names1)
  case Nil
  then show ?case by simp
next
  case (Cons name1 names1)
  then show ?case
    using length_match_name [of L names2 threshold name1] by simp
qed

lemma length_clean_names: "length (clean_names names) \<le> length names"
  by (induction names) (auto simp: clean_names_def split: option.splits)

text \<open>The matcher either raises \<open>KeyError\<close> or returns a report that is not empty and has
  at most one row for each query: the empty report is never returned.\<close>

lemma find_potential_duplicates_cases:
  assumes "library_ok L"
  shows "find_potential_duplicates L names1 names2 threshold = Inl (KeyError ''similarity'') \<or>
         (\<exists>report. find_potential_duplicates L names1 names2 threshold = Inr report \<and>
                   report \<noteq> [] \<and> length report \<le> length names1)"
proof -
  let ?results = "match_names L (set_order L (clean_names names2)) threshold (clean_names names1)"
  show ?thesis
  proof (cases "?results = []")
    case True
    then show ?thesis
      by (simp add: find_potential_duplicates_def sort_values_def)
  next
    case False
    then obtain report where report: "sort_values L ?results = Inr report"
      using sort_values_Inr_iff by blast
    have "mset report = mset ?results"
      using assms report by (rule sort_values_mset)
    then have len: "length report = length ?results"
      by (rule mset_eq_length)
    have "length ?results \<le> length (clean_names names1)"
      by (rule length_match_names)
    also have "\<dots> \<le> length names1"
      by (rule length_clean_names)
    finally have "length report \<le> length names1"
      using len by simp
    moreover have "report \<noteq> []"
      using len False by auto
    ultimately show ?thesis
      using report by (simp add: find_potential_duplicates_def Let_def)
  qed
qed

section \<open>The similarity matcher: claims\<close>



text \<open>C6. A query whose lower-cased, trimmed form is in the cleaned reference set gets,
  at every threshold, the candidate with match type exact, similarity 1 and itself as the
  only match; the report holds no other candidate under that name, and the step for
  the query gives this candidate whatever the similarity function is: the \<open>continue\<close>
  skips the fuzzy comparison.\<close>

theorem exact_match_precedence:
  assumes "library_ok L"
    and "Some q \<in> set names1"
    and "strip (lower q) \<in> set (clean_names names2)"
  shows "\<exists>report. find_potential_duplicates L names1 names2 threshold = Inr report \<and>
           \<lparr>name = strip (lower q), match_type = exact, similarity = 1,
             existing_matches = [strip (lower q)]\<rparr> \<in> set report \<and>
           (\<forall>c\<in>set report. name c = strip (lower q) \<longrightarrow>
              c = \<lparr>name = strip (lower q), match_type = exact, similarity = 1,
                    existing_matches = [strip (lower q)]\<rparr>) \<and>
           (\<forall>r. match_name (L\<lparr>ratio := r\<rparr>) (set_order L (clean_names names2)) threshold
                  (strip (lower q))
                = [\<lparr>name = strip (lower q), match_type = exact, similarity = 1,
                     existing_matches = [strip (lower q)]\<rparr>])"
proof -
  let ?q = "strip (lower q)"
  let ?c = "\<lparr>name = ?q, match_type = exact, similarity = 1, existing_matches = [?q]\<rparr>"
  let ?names2 = "set_order L (clean_names names2)"
  let ?results = "match_names L ?names2 threshold (clean_names names1)"
  have q1: "?q \<in> set (clean_names names1)"
    using assms(2) by (rule clean_names_Some)
  have q2: "?q \<in> set ?names2"
    using assms(1,3) by (simp add: library_ok_def)
  have m: "match_name L ?names2 threshold ?q = [?c]"
    using q2 by (rule match_name_exact)
  have "?c \<in> set (match_name L ?names2 threshold ?q)"
    using m by simp
  then have c: "?c \<in> set ?results"
    using q1 unfolding set_match_names by blast
  then have "?results \<noteq> []" by auto
  then obtain report where report: "sort_values L ?results = Inr report"
    using sort_values_Inr_iff by blast
  have set_report: "set report = set ?results"
    using sort_values_mset [OF assms(1) report] by (metis set_mset_mset)
  have uniq: "c' = ?c" if c': "c' \<in> set report" and nm: "name c' = ?q" for c'
  proof -
    obtain name1 where n: "c' \<in> set (match_name L ?names2 threshold name1)"
      using c' unfolding set_report set_match_names by blast
    then have "name1 = ?q"
      using match_name_name nm by fastforce
    with n m show ?thesis by simp
  qed
  have fpd: "find_potential_duplicates L names1 names2 threshold = Inr report"
    using report by (simp add: find_potential_duplicates_def Let_def)
  have mem: "?c \<in> set report"
    using c set_report by simp
  show ?thesis
  proof (intro exI conjI ballI impI allI)
    show "find_potential_duplicates L names1 names2 threshold = Inr report"
      by (rule fpd)
    show "?c \<in> set report"
      by (rule mem)
    fix c' assume "c' \<in> set report" and "name c' = ?q"
    then show "c' = ?c" by (rule uniq)
  next
    fix r
    show "match_name (L\<lparr>ratio := r\<rparr>) ?names2 threshold ?q = [?c]"
      using q2 by (rule match_name_exact)
  qed
qed

theorem exact_match_precedence_witness:
  "\<exists>report. find_potential_duplicates run1 [Some ''Smith, John A.''] [Some ''smith, john a.'']
               (3 / 4) = Inr report \<and>
     \<lparr>name = ''smith, john a.'', match_type = exact, similarity = 1,
       existing_matches = [''smith, john a.'']\<rparr> \<in> set report"
proof -
  have a: "Some ''Smith, John A.'' \<in> set [Some ''Smith, John A.'']"
    by simp
  have n: "strip (lower ''Smith, John A.'') = ''smith, john a.''"
    by code_simp
  have b: "strip (lower ''Smith, John A.'') \<in> set (clean_names [Some ''smith, john a.''])"
    by code_simp
  from exact_match_precedence [OF library_ok_run1 a b, of "3 / 4"]
  obtain report where
    "find_potential_duplicates run1 [Some ''Smith, John A.''] [Some ''smith, john a.''] (3 / 4)
       = Inr report"
    and "\<lparr>name = strip (lower ''Smith, John A.''), match_type = exact, similarity = 1,
          existing_matches = [strip (lower ''Smith, John A.'')]\<rparr> \<in> set report"
    by (elim exE conjE)
  then show ?thesis
    unfolding n by (intro exI conjI)
qed

text \<open>C7. Raising the threshold never adds a fuzzy match: for one query and one reference
  set, the references collected at the higher threshold are among those collected at the
  lower one, so there are no more of them, and what a candidate lists as matches at the
  higher threshold is listed by a candidate of the same type at the lower one.\<close>

theorem threshold_monotonicity:
  assumes "t1 \<le> t2"
  shows "set (close_matches L name1 names2 t2) \<subseteq> set (close_matches L name1 names2 t1) \<and>
         length (close_matches L name1 names2 t2) \<le> length (close_matches L name1 names2 t1) \<and>
         (\<forall>c2\<in>set (match_name L names2 t2 name1).
            \<exists>c1\<in>set (match_name L names2 t1 name1).
              match_type c1 = match_type c2 \<and>
              set (existing_matches c2) \<subseteq> set (existing_matches c1))"
proof -
  let ?P = "\<lambda>t existing. ratio L name1 existing \<ge> t"
  have f: "filter (?P t2) names2 = filter (?P t2) (filter (?P t1) names2)"
    using assms by (auto intro: filter_cong)
  have sub: "set (close_matches L name1 names2 t2) \<subseteq> set (close_matches L name1 names2 t1)"
    using assms by (auto simp: close_matches_filter)
  have "length (filter (?P t2) (filter (?P t1) names2)) \<le> length (filter (?P t1) names2)"
    by (rule length_filter_le)
  then have len: "length (close_matches L name1 names2 t2)
                    \<le> length (close_matches L name1 names2 t1)"
    using f by (simp add: close_matches_filter)
  have "\<exists>c1\<in>set (match_name L names2 t1 name1).
           match_type c1 = match_type c2 \<and> set (existing_matches c2) \<subseteq> set (existing_matches c1)"
    if "c2 \<in> set (match_name L names2 t2 name1)" for c2
  proof (cases "name1 \<in> set names2")
    case True
    then show ?thesis using that by (simp add: match_name_exact)
  next
    case False
    then have ne2: "close_matches L name1 names2 t2 \<noteq> []"
      using that by (auto simp: match_name_def Let_def split: if_splits)
    then have ne1: "close_matches L name1 names2 t1 \<noteq> []"
      using sub by auto
    show ?thesis
      using that False ne1 ne2 sub by (auto simp: match_name_def Let_def)
  qed
  with sub len show ?thesis by blast
qed

theorem threshold_monotonicity_witness:
  "set (close_matches run1 ''doe, jan'' [''doe, jane'', ''roe, jan''] (9 / 10))
     \<subseteq> set (close_matches run1 ''doe, jan'' [''doe, jane'', ''roe, jan''] (3 / 4)) \<and>
   close_matches run1 ''doe, jan'' [''doe, jane'', ''roe, jan''] (9 / 10)
     = [(''doe, jane'', 16 / 17)] \<and>
   close_matches run1 ''doe, jan'' [''doe, jane'', ''roe, jan''] (3 / 4)
     = [(''doe, jane'', 16 / 17), (''roe, jan'', 7 / 8)]"
proof -
  have a: "close_matches run1 ''doe, jan'' [''doe, jane'', ''roe, jan''] (9 / 10)
             = [(''doe, jane'', 16 / 17)]"
    by code_simp
  have b: "close_matches run1 ''doe, jan'' [''doe, jane'', ''roe, jan''] (3 / 4)
             = [(''doe, jane'', 16 / 17), (''roe, jan'', 7 / 8)]"
    by code_simp
  have "(3 / 4 :: real) \<le> 9 / 10" by simp
  from threshold_monotonicity [OF this, of run1 "''doe, jan''" "[''doe, jane'', ''roe, jan'']"]
  show ?thesis using a b by blast
qed

text \<open>C5. The claim is that the matcher itself rejects a threshold outside [0, 1].
  \<open>find_potential_duplicates\<close> has no such check: with threshold 2 it reports the exact
  match as with any other threshold.\<close>

theorem threshold_counterexample:
  "find_potential_duplicates run1 [Some ''Doe, Jane''] [Some ''Doe, Jane''] 2
     = Inr [\<lparr>name = ''doe, jane'', match_type = exact, similarity = 1,
               existing_matches = [''doe, jane'']\<rparr>]"
  by code_simp

text \<open>C5, amended. The check stands at the script's entry: for a threshold below 0 or
  above 1 the script raises its \<open>ValueError\<close> before a name is combined or compared,
  whatever the tables hold; the function \<open>find_potential_duplicates\<close> never raises that
  error.\<close>

theorem threshold_rejected_at_entry:
  "(threshold < 0 \<or> threshold > 1 \<longrightarrow>
      main L all_broadstripes skipped_entries threshold = Inl Threshold_out_of_range) \<and>
   find_potential_duplicates L names1 names2 threshold \<noteq> Inl Threshold_out_of_range"
  by (simp add: main_def find_potential_duplicates_def sort_values_def Let_def)

theorem threshold_rejected_at_entry_witness:
  "main run1 [(Some ''Doe'', Some ''Jane'', None)] [(Some ''Doe'', Some ''Jane'', None)] 2
     = Inl Threshold_out_of_range \<and>
   main run1 [(Some ''Doe'', Some ''Jane'', None)] [(Some ''Doe'', Some ''Jane'', None)] (- 1 / 10)
     = Inl Threshold_out_of_range"
  using threshold_rejected_at_entry
      [of 2 run1 "[(Some ''Doe'', Some ''Jane'', None)]" "[(Some ''Doe'', Some ''Jane'', None)]"]
    threshold_rejected_at_entry
      [of "- 1 / 10" run1 "[(Some ''Doe'', Some ''Jane'', None)]"
          "[(Some ''Doe'', Some ''Jane'', None)]"]
  by simp

text \<open>C2. The claim is that the matcher returns a report for all data, the empty report
  when no query matches. When no query matches (or there is no query), \<open>results\<close> is
  empty, the frame built from it has no column \<open>similarity\<close>, and \<open>sort_values\<close> raises
  \<open>KeyError\<close>: the call fails where the empty report is due.\<close>

theorem no_match_raises_KeyError:
  assumes "\<forall>name1\<in>set (clean_names names1).
             match_name L (set_order L (clean_names names2)) threshold name1 = []"
  shows "find_potential_duplicates L names1 names2 threshold = Inl (KeyError ''similarity'')"
proof -
  have "set (match_names L (set_order L (clean_names names2)) threshold (clean_names names1)) = {}"
    using assms by (simp add: set_match_names)
  then show ?thesis
    by (simp add: find_potential_duplicates_def sort_values_def)
qed

theorem no_match_raises_KeyError_witness:
  "find_potential_duplicates run1 [Some ''Zed, Nobody''] [Some ''Alpha, Somebody''] (9 / 10)
     = Inl (KeyError ''similarity'') \<and>
   find_potential_duplicates run1 [] [] (3 / 4) = Inl (KeyError ''similarity'')"
proof -
  have a: "\<forall>name1\<in>set (clean_names [Some ''Zed, Nobody'']).
             match_name run1 (set_order run1 (clean_names [Some ''Alpha, Somebody''])) (9 / 10) name1
               = []"
    by code_simp
  have b: "\<forall>name1\<in>set (clean_names []).
             match_name run1 (set_order run1 (clean_names [])) (3 / 4) name1 = []"
    by (simp add: clean_names_def)
  show ?thesis
    using no_match_raises_KeyError [OF a] no_match_raises_KeyError [OF b] by (rule conjI)
qed

text \<open>C4. The claim is that two runs give identical reports, the order of references with
  equal ratio included. The code sorts the matches of a query by ratio only, stably, so
  references with equal ratio stay in the order in which the reference set was iterated,
  and that order is not fixed by the inputs. With the order of \<open>run1\<close> and with that of
  \<open>run2\<close> (both keep the libraries' guarantees) the reports for the same inputs differ.\<close>

theorem tie_order_counterexample:
  "find_potential_duplicates run1 [Some ''Doe, Jan''] [Some ''Doe, Jane'', Some ''Doe, Jana'']
       (3 / 4)
     = Inr [\<lparr>name = ''doe, jan'', match_type = fuzzy, similarity = 16 / 17,
               existing_matches = [''doe, jane'', ''doe, jana'']\<rparr>] \<and>
   find_potential_duplicates run2 [Some ''Doe, Jan''] [Some ''Doe, Jane'', Some ''Doe, Jana'']
       (3 / 4)
     = Inr [\<lparr>name = ''doe, jan'', match_type = fuzzy, similarity = 16 / 17,
               existing_matches = [''doe, jana'', ''doe, jane'']\<rparr>] \<and>
   library_ok run1 \<and> library_ok run2"
proof -
  have "find_potential_duplicates run1 [Some ''Doe, Jan'']
          [Some ''Doe, Jane'', Some ''Doe, Jana''] (3 / 4)
     = Inr [\<lparr>name = ''doe, jan'', match_type = fuzzy, similarity = 16 / 17,
               existing_matches = [''doe, jane'', ''doe, jana'']\<rparr>]"
    by code_simp
  moreover have "find_potential_duplicates run2 [Some ''Doe, Jan'']
          [Some ''Doe, Jane'', Some ''Doe, Jana''] (3 / 4)
     = Inr [\<lparr>name = ''doe, jan'', match_type = fuzzy, similarity = 16 / 17,
               existing_matches = [''doe, jana'', ''doe, jane'']\<rparr>]"
    by code_simp
  ultimately show ?thesis
    using library_ok_run1 library_ok_run2 by (intro conjI)
qed

text \<open>C4, amended. Two runs on the same queries, references and threshold, which can
  differ only in the order in which the reference set is iterated, both fail or both
  return a report, and the reports agree row by row on name, match type and similarity;
  the matches of a row are the same reference names with the same ratios position by
  position, so they differ at most in the order of references whose ratio is equal.\<close>

theorem reports_same_up_to_ties:
  assumes "library_ok L" and "library_ok L'"
    and "ratio L' = ratio L" and "nargsort L' = nargsort L"
  shows "rel_sum (=) (list_all2 (same_up_to_ties (ratio L)))
           (find_potential_duplicates L names1 names2 threshold)
           (find_potential_duplicates L' names1 names2 threshold)"
proof -
  let ?names2 = "set_order L (clean_names names2)"
  let ?names2' = "set_order L' (clean_names names2)"
  let ?results = "match_names L ?names2 threshold (clean_names names1)"
  let ?results' = "match_names L' ?names2' threshold (clean_names names1)"
  have "distinct ?names2" "distinct ?names2'" "set ?names2 = set ?names2'"
    using assms(1,2) by (simp_all add: library_ok_def)
  then have "mset ?names2 = mset ?names2'"
    by (simp add: set_eq_iff_mset_eq_distinct)
  then have rel: "list_all2 (same_up_to_ties (ratio L)) ?results ?results'"
    using assms(3) by (rule match_names_same_up_to_ties)
  then have keys: "map similarity ?results = map similarity ?results'"
    by (rule same_up_to_ties_similarity)
  have len: "length ?results = length ?results'"
    using rel by (rule list_all2_lengthD)
  show ?thesis
  proof (cases "?results = []")
    case True
    then have "?results' = []" using len by simp
    with True show ?thesis
      by (simp add: find_potential_duplicates_def sort_values_def)
  next
    case False
    then have ne': "?results' \<noteq> []" using len by auto
    let ?p = "nargsort L (map similarity ?results)"
    have "\<forall>i\<in>set ?p. i < length ?results"
      using nargsort_in_range [OF assms(1)] by fastforce
    then have "list_all2 (same_up_to_ties (ratio L))
                 (map (\<lambda>i. ?results ! i) ?p) (map (\<lambda>i. ?results' ! i) ?p)"
      using rel by (simp add: list_all2_conv_all_nth)
    then show ?thesis
      using False ne' keys assms(4)
      by (simp add: find_potential_duplicates_def sort_values_def Let_def)
  qed
qed

theorem reports_same_up_to_ties_witness:
  "rel_sum (=) (list_all2 (same_up_to_ties SequenceMatcher_ratio))
     (find_potential_duplicates run1 [Some ''Doe, Jan'']
        [Some ''Doe, Jane'', Some ''Doe, Jana''] (3 / 4))
     (find_potential_duplicates run2 [Some ''Doe, Jan'']
        [Some ''Doe, Jane'', Some ''Doe, Jana''] (3 / 4))"
proof -
  have "ratio run2 = ratio run1" "nargsort run2 = nargsort run1"
    and r: "ratio run1 = SequenceMatcher_ratio"
    by (simp_all add: run1_def run2_def)
  from reports_same_up_to_ties [OF library_ok_run1 library_ok_run2 this(1,2)]
  show ?thesis unfolding r .
qed

section \<open>The examples of the specification and of difflib's documentation\<close>

lemma difflib_examples:
  "SequenceMatcher_ratio ''abcd'' ''bcde'' = 3 / 4"
  "SequenceMatcher_ratio ''tide'' ''diet'' = 1 / 4"
  "SequenceMatcher_ratio ''diet'' ''tide'' = 1 / 2"
  "find_longest_match '' abcd'' ''abcd abcd'' 0 5 0 9 = (0, 4, 5)"
  "get_matching_blocks ''abxcd'' ''abcd'' = [(0, 0, 2), (3, 2, 2)]"
  by code_simp+

lemma scenario_1:
  "find_potential_duplicates run1 [Some ''Smith, John A.''] [Some ''smith, john a.''] (3 / 4)
     = Inr [\<lparr>name = ''smith, john a.'', match_type = exact, similarity = 1,
               existing_matches = [''smith, john a.'']\<rparr>]"
  by code_simp

lemma scenario_2:
  "find_potential_duplicates run1 [Some ''Smithe, Jon''] [Some ''Smith, John A.''] (6 / 10)
     = Inr [\<lparr>name = ''smithe, jon'', match_type = fuzzy, similarity = 4 / 5,
               existing_matches = [''smith, john a.'']\<rparr>]"
  by code_simp

lemma scenario_3:
  "parse_fullname (Some ''Doe, Jane M.'') = Inr (''Doe'', ''Jane'', ''M.'')"
  "combine_name (Some ''Doe'', Some ''Jane'', Some ''M.'') = Inr ''Doe, Jane M.''"
  by code_simp+

lemma scenario_4: "parse_fullname (Some ''Doe Jane'') = Inl (Not_one_comma ''Doe Jane'')"
  by code_simp

end
